theory Spec2Isabelle
  imports Complex_Main
begin

section \<open>Input timing: the Repeater and the Cursor (pdfpc.py)\<close>

text \<open>
  Time values are Python floats in the source.  They are modelled as exact reals: the
  constants \<open>REPEAT_TRIGGER = 0.4\<close> and \<open>REPEAT_INTERVAL = 0.1\<close> are the decimal
  fractions the source writes, and \<open>+\<close>, \<open>-\<close>, \<open><\<close>, \<open>>\<close> are exact.  Fire counts and the
  cursor are Python's unbounded integers, hence \<open>int\<close>.
\<close>

definition REPEAT_TRIGGER :: real where
  "REPEAT_TRIGGER = 4 / 10"

definition REPEAT_INTERVAL :: real where
  "REPEAT_INTERVAL = 1 / 10"

datatype rstate = UP | HOLD | FIRE

record Repeater =
  state :: rstate
  stopwatch :: real

definition Repeater_init :: Repeater where
  "Repeater_init = \<lparr>state = UP, stopwatch = - 1000000000000\<rparr>"

text \<open>
  The loop of \<open>Repeater._countdown\<close>: \<open>while self.stopwatch > REPEAT_INTERVAL\<close>, one more
  fire and one interval less.  The pair is (fires, stopwatch).
\<close>

function countdown_loop :: "int \<Rightarrow> real \<Rightarrow> int \<times> real" where
  "countdown_loop fires sw =
     (if sw > REPEAT_INTERVAL then countdown_loop (fires + 1) (sw - REPEAT_INTERVAL)
      else (fires, sw))"
  by pat_completeness auto
termination
proof (relation "measure (\<lambda>(fires :: int, sw :: real). nat \<lceil>sw * 10\<rceil>)")
  show "wf (measure (\<lambda>(fires :: int, sw :: real). nat \<lceil>sw * 10\<rceil>))"
    by simp
next
  fix fires :: int and sw :: real
  assume "REPEAT_INTERVAL < sw"
  then have pos: "0 < sw - 1 / 10"
    by (simp add: REPEAT_INTERVAL_def)
  have "\<lceil>(sw - 1 / 10) * 10\<rceil> = \<lceil>sw * 10\<rceil> - 1"
    by (simp add: algebra_simps)
  moreover from pos have "0 < \<lceil>(sw - 1 / 10) * 10\<rceil>"
    by (simp add: algebra_simps)
  ultimately have "nat \<lceil>(sw - 1 / 10) * 10\<rceil> < nat \<lceil>sw * 10\<rceil>"
    by linarith
  then show "((fires + 1, sw - REPEAT_INTERVAL), fires, sw)
               \<in> measure (\<lambda>(fires :: int, sw :: real). nat \<lceil>sw * 10\<rceil>)"
    by (simp add: REPEAT_INTERVAL_def)
qed

declare countdown_loop.simps [simp del]

definition countdown :: "Repeater \<Rightarrow> int \<times> Repeater" where
  "countdown r =
     (case countdown_loop 0 (stopwatch r) of
        (fires, sw) \<Rightarrow> (fires, r\<lparr>stopwatch := sw\<rparr>))"

definition Repeater_tick :: "Repeater \<Rightarrow> real \<Rightarrow> bool \<Rightarrow> int \<times> Repeater" where
  "Repeater_tick r dt is_down =
     (if \<not> is_down then (0, r\<lparr>state := UP\<rparr>)
      else case state r of
        UP \<Rightarrow> (1, r\<lparr>state := HOLD, stopwatch := dt\<rparr>)
      | HOLD \<Rightarrow>
          (let r1 = r\<lparr>stopwatch := stopwatch r + dt\<rparr> in
           if stopwatch r1 < REPEAT_TRIGGER then (0, r1)
           else
             (case countdown (r1\<lparr>state := FIRE,
                                 stopwatch := stopwatch r1 - REPEAT_TRIGGER\<rparr>) of
                (fires, r2) \<Rightarrow> (1 + fires, r2)))
      | FIRE \<Rightarrow> countdown (r\<lparr>stopwatch := stopwatch r + dt\<rparr>))"


record Cursor =
  rev_timer :: Repeater
  fwd_timer :: Repeater
  cursor :: int
  nslides :: int

definition Cursor_init :: "int \<Rightarrow> Cursor" where
  "Cursor_init n =
     \<lparr>rev_timer = Repeater_init, fwd_timer = Repeater_init, cursor = 0, nslides = n\<rparr>"

definition Cursor_tick :: "Cursor \<Rightarrow> real \<Rightarrow> bool \<Rightarrow> bool \<Rightarrow> bool \<times> Cursor" where
  "Cursor_tick c dt reverse forward =
     (let old_value = cursor c in
      if reverse \<and> forward then (False, c)
      else
        (case Repeater_tick (rev_timer c) dt reverse of (nrev, r') \<Rightarrow>
         case Repeater_tick (fwd_timer c) dt forward of (nfwd, f') \<Rightarrow>
           let c1 = cursor c - nrev;
               c2 = c1 + nfwd;
               c3 = min c2 (nslides c - 1);
               c4 = max c3 0
           in (c4 \<noteq> old_value,
               c\<lparr>rev_timer := r', fwd_timer := f', cursor := c4\<rparr>)))"

text \<open>A sequence of ticks \<open>(dt, reverse, forward)\<close>: the returned flags and the final state.\<close>

fun Cursor_run :: "Cursor \<Rightarrow> (real \<times> bool \<times> bool) list \<Rightarrow> bool list \<times> Cursor" where
  "Cursor_run c [] = ([], c)"
| "Cursor_run c ((dt, reverse, forward) # ts) =
     (case Cursor_tick c dt reverse forward of
        (b, c1) \<Rightarrow> (case Cursor_run c1 ts of (bs, c2) \<Rightarrow> (b # bs, c2)))"




section \<open>The interruptible rasterizer (rasterizer.py)\<close>

text \<open>
  A window size is the \<open>(width, height)\<close> tuple put on the queue by \<open>push_resize\<close>; the
  queue also carries \<open>None\<close>, the stop sentinel of \<open>shutdown\<close>.  The size handed to the
  decoder has one of its two components set to \<open>None\<close>.
\<close>

type_synonym window_size = "int \<times> int"
type_synonym image_size = "int option \<times> int option"
type_synonym queue_item = "window_size option"

datatype py_error = TypeError | ZeroDivisionError | IndexError | AttributeError

text \<open>
  An image is known by the (one-based) page it shows and the size it was decoded for;
  \<open>Black img\<close> is \<open>img.point(lut)\<close> for the all-zero lookup table of \<open>images_done\<close>.
\<close>

datatype image = Page nat image_size | Black image

definition CHUNK :: nat where
  "CHUNK = 32"

text \<open>
  \<open>_winsize2rasterargs\<close>.  \<open>float(width) / height\<close> raises for a zero height; the
  division and the comparison with the aspect ratio are taken over the reals.
\<close>

definition winsize2rasterargs :: "window_size \<Rightarrow> real \<Rightarrow> py_error + image_size" where
  "winsize2rasterargs window_size aspect =
     (case window_size of (width, height) \<Rightarrow>
        if height = 0 then Inl ZeroDivisionError
        else
          (let window_aspect = real_of_int width / real_of_int height in
           if window_aspect \<ge> aspect then Inr (None, Some height)
           else Inr (Some width, None)))"

text \<open>
  The decoder \<open>pdf2image.convert_from_path\<close> is an external library.  It is taken at its
  interface: for a document of \<open>npages\<close> pages it returns the pages \<open>first_page\<close> to
  \<open>last_page\<close> in order, \<open>last_page\<close> capped at the page count, and nothing when the
  range is empty.
\<close>

definition convert_from_path :: "nat \<Rightarrow> image_size \<Rightarrow> nat \<Rightarrow> nat \<Rightarrow> image list" where
  "convert_from_path n sz first_page last_page =
     map (\<lambda>p. Page p sz) [max 1 first_page ..< Suc (min last_page n)]"

text \<open>
  The arguments of \<open>_rasterize_worker\<close> that stay fixed: \<open>pagelimit\<close>, and what the
  document at \<open>pdfpath\<close> provides, its page count and the aspect ratio read from its
  metadata.
\<close>

record config =
  pagelimit :: nat
  npages :: nat
  aspect :: real

text \<open>The local variables of \<open>_rasterize_worker\<close>; \<open>page\<close> is one-based and never below 1.\<close>

record wstate =
  page :: nat
  images :: "image option list"
  window_size :: window_size
  image_size :: image_size

datatype 'a outcome = Running 'a | Returned | Raised py_error

text \<open>
  The inner loop on \<open>size_queue.get(timeout=0.1)\<close>.  Its argument is the items the queue
  delivers before it raises \<open>queue.Empty\<close>; items after a sentinel are never read.
\<close>

fun drain :: "config \<Rightarrow> wstate \<Rightarrow> queue_item list \<Rightarrow> wstate outcome" where
  "drain cfg st [] = Running st"
| "drain cfg st (None # items) = Returned"
| "drain cfg st (Some ws # items) =
     (case winsize2rasterargs ws (aspect cfg) of
        Inl e \<Rightarrow> Raised e
      | Inr sz \<Rightarrow> drain cfg (st\<lparr>window_size := ws, image_size := sz, page := 1\<rparr>) items)"

text \<open>The loop \<open>for i, img in enumerate(chunk)\<close>; a write past the end of the list raises.\<close>

fun store_chunk :: "wstate \<Rightarrow> image list \<Rightarrow> py_error + wstate" where
  "store_chunk st [] = Inr st"
| "store_chunk st (img # chunk) =
     (if page st - 1 < length (images st)
      then store_chunk
             (st\<lparr>images := (images st)[page st - 1 := Some img], page := page st + 1\<rparr>) chunk
      else Inl IndexError)"

text \<open>
  One pass through the body of \<open>while True\<close>: the state afterwards and the argument of the
  callback, if it was called.
\<close>

definition iteration ::
  "config \<Rightarrow> wstate \<Rightarrow> queue_item list \<Rightarrow> (wstate \<times> image option list option) outcome" where
  "iteration cfg st items =
     (case drain cfg st items of
        Returned \<Rightarrow> Returned
      | Raised e \<Rightarrow> Raised e
      | Running st1 \<Rightarrow>
          if page st1 = pagelimit cfg + 1 then
            (if images st1 = [] then Raised IndexError
             else if last (images st1) \<noteq> None
               then Running (st1\<lparr>images := replicate (pagelimit cfg) None\<rparr>, Some (images st1))
               else Running (st1, None))
          else
            (case store_chunk st1
                    (convert_from_path (npages cfg) (image_size st1)
                       (page st1) (page st1 + CHUNK - 1)) of
               Inl e \<Rightarrow> Raised e
             | Inr st2 \<Rightarrow> Running (st2, None)))"

text \<open>
  The outer loop over a finite schedule: one list of queue items per pass.  The result is
  the callback arguments in order and where the worker stands after the last pass.
\<close>

fun worker_loop ::
  "config \<Rightarrow> wstate \<Rightarrow> queue_item list list \<Rightarrow> image option list list \<times> wstate outcome" where
  "worker_loop cfg st [] = ([], Running st)"
| "worker_loop cfg st (items # sched) =
     (case iteration cfg st items of
        Returned \<Rightarrow> ([], Returned)
      | Raised e \<Rightarrow> ([], Raised e)
      | Running (st1, pub) \<Rightarrow>
          (case worker_loop cfg st1 sched of
             (pubs, out) \<Rightarrow> ((case pub of None \<Rightarrow> [] | Some imgs \<Rightarrow> [imgs]) @ pubs, out)))"

text \<open>
  The code before the loop: the blocking \<open>size_queue.get()\<close> delivers \<open>first\<close>;
  unpacking \<open>None\<close> in \<open>_winsize2rasterargs\<close> is a \<open>TypeError\<close>.
\<close>

definition worker_start :: "config \<Rightarrow> queue_item \<Rightarrow> py_error + wstate" where
  "worker_start cfg first =
     (case first of
        None \<Rightarrow> Inl TypeError
      | Some ws \<Rightarrow>
          (case winsize2rasterargs ws (aspect cfg) of
             Inl e \<Rightarrow> Inl e
           | Inr sz \<Rightarrow>
               Inr \<lparr>page = 1, images = replicate (pagelimit cfg) None,
                    window_size = ws, image_size = sz\<rparr>))"

definition rasterize_worker ::
  "config \<Rightarrow> queue_item \<Rightarrow> queue_item list list \<Rightarrow> image option list list \<times> wstate outcome" where
  "rasterize_worker cfg first sched =
     (case worker_start cfg first of
        Inl e \<Rightarrow> ([], Raised e)
      | Inr st \<Rightarrow> worker_loop cfg st sched)"

subsection \<open>ThreadedRasterizer\<close>

text \<open>
  The fields guarded by the lock.  \<open>images_done\<close> and \<open>get\<close> hold the lock for their whole
  body, so each is one atomic step on this state.
\<close>

record rasterizer =
  tr_images :: "image option list option"
  tr_black :: "image option"

definition ThreadedRasterizer_init :: rasterizer where
  "ThreadedRasterizer_init = \<lparr>tr_images = None, tr_black = None\<rparr>"

text \<open>
  \<open>self.images\<close> is assigned before \<open>images[0].point(lut)\<close> is evaluated, so it is set
  even when that expression raises.
\<close>

definition images_done :: "rasterizer \<Rightarrow> image option list \<Rightarrow> rasterizer \<times> py_error option" where
  "images_done tr imgs =
     (let tr1 = tr\<lparr>tr_images := Some imgs\<rparr> in
      case imgs of
        [] \<Rightarrow> (tr1, Some IndexError)
      | None # _ \<Rightarrow> (tr1, Some AttributeError)
      | Some img # _ \<Rightarrow> (tr1\<lparr>tr_black := Some (Black img)\<rparr>, None))"

definition get :: "rasterizer \<Rightarrow> int \<Rightarrow> image option" where
  "get tr index =
     (case tr_images tr of
        None \<Rightarrow> None
      | Some imgs \<Rightarrow>
          if index \<ge> 0 \<and> index < int (length imgs) then imgs ! nat index
          else tr_black tr)"

subsection \<open>States of the worker\<close>

text \<open>The list the worker holds once every page up to \<open>pagelimit\<close> is decoded at \<open>sz\<close>.\<close>

definition full_set :: "config \<Rightarrow> image_size \<Rightarrow> image option list" where
  "full_set cfg sz = map (\<lambda>p. Some (Page p sz)) [1..<Suc (pagelimit cfg)]"


text \<open>
  While rendering, the entries before \<open>page\<close> are the pages decoded at the size in use.
  After the callback the list is all \<open>None\<close> and \<open>page\<close> stays past the last page.
\<close>

definition rendered :: "config \<Rightarrow> wstate \<Rightarrow> bool" where
  "rendered cfg st \<longleftrightarrow>
     length (images st) = pagelimit cfg \<and> 1 \<le> page st \<and> page st \<le> pagelimit cfg + 1 \<and>
     take (page st - 1) (images st) = map (\<lambda>p. Some (Page p (image_size st))) [1..<page st]"

definition idle :: "config \<Rightarrow> wstate \<Rightarrow> bool" where
  "idle cfg st \<longleftrightarrow>
     page st = pagelimit cfg + 1 \<and> images st = replicate (pagelimit cfg) None"







section \<open>Properties of the Repeater\<close>

lemmas repeater_eval =
  Repeater_tick_def Repeater_init_def countdown_def countdown_loop.simps
  REPEAT_TRIGGER_def REPEAT_INTERVAL_def




















section \<open>Properties of the Cursor\<close>



lemma Cursor_tick_bounds:
  assumes "1 \<le> nslides c" and "0 \<le> cursor c \<and> cursor c \<le> nslides c - 1"
    and "Cursor_tick c dt reverse forward = (b, c')"
  shows "nslides c' = nslides c \<and> 0 \<le> cursor c' \<and> cursor c' \<le> nslides c' - 1"
  using assms
  by (auto simp: Cursor_tick_def Let_def split: if_splits prod.splits)

lemma Cursor_run_bounds:
  assumes "1 \<le> nslides c" and "0 \<le> cursor c \<and> cursor c \<le> nslides c - 1"
    and "Cursor_run c ts = (bs, c')"
  shows "nslides c' = nslides c \<and> 0 \<le> cursor c' \<and> cursor c' \<le> nslides c' - 1"
  using assms
proof (induction ts arbitrary: c bs c')
  case Nil
  then show ?case by simp
next
  case (Cons t ts)
  obtain dt reverse forward where t: "t = (dt, reverse, forward)"
    by (cases t)
  obtain b c1 where step: "Cursor_tick c dt reverse forward = (b, c1)"
    by (cases "Cursor_tick c dt reverse forward")
  obtain bs1 c2 where rest: "Cursor_run c1 ts = (bs1, c2)"
    by (cases "Cursor_run c1 ts")
  from Cons.prems(3) t step rest have c2: "c2 = c'"
    by simp
  have b1: "nslides c1 = nslides c \<and> 0 \<le> cursor c1 \<and> cursor c1 \<le> nslides c1 - 1"
    by (rule Cursor_tick_bounds [OF Cons.prems(1,2) step])
  then have "1 \<le> nslides c1"
    using Cons.prems(1) by simp
  from Cons.IH [OF this _ rest] b1 c2 show ?case
    by simp
qed


text \<open>
  Claim C5.  For a Cursor created with \<open>nslides \<ge> 1\<close>, after any finite sequence of
  \<open>tick\<close> calls the cursor lies in \<open>[0, nslides - 1]\<close>; with \<open>nslides = 1\<close> it is \<open>0\<close>.
  Every prefix of a sequence is a sequence, so this holds after each tick.  The bound does
  not depend on the sign of \<open>dt\<close>.
\<close>

theorem cursor_in_bounds:
  assumes "1 \<le> n" and "Cursor_run (Cursor_init n) ts = (bs, c)"
  shows "0 \<le> cursor c \<and> cursor c \<le> n - 1 \<and> (n = 1 \<longrightarrow> cursor c = 0)"
proof -
  have "nslides c = nslides (Cursor_init n) \<and> 0 \<le> cursor c \<and> cursor c \<le> nslides c - 1"
    by (rule Cursor_run_bounds [OF _ _ assms(2)]) (use assms(1) in \<open>simp_all add: Cursor_init_def\<close>)
  then show ?thesis
    by (auto simp: Cursor_init_def)
qed


theorem cursor_in_bounds_witness:
  "0 \<le> cursor (snd (Cursor_run (Cursor_init 3)
                      [(1 / 20, False, True), (1, False, True), (1 / 20, True, False)])) \<and>
   cursor (snd (Cursor_run (Cursor_init 3)
                 [(1 / 20, False, True), (1, False, True), (1 / 20, True, False)])) \<le> 3 - 1 \<and>
   cursor (snd (Cursor_run (Cursor_init 3)
                 [(1 / 20, False, True), (1, False, True), (1 / 20, True, False)])) = 1"
proof -
  have n: "(1 :: int) \<le> 3"
    by simp
  have run: "Cursor_run (Cursor_init 3)
               [(1 / 20, False, True), (1, False, True), (1 / 20, True, False)] =
             ([True, True, True],
              \<lparr>rev_timer = \<lparr>state = HOLD, stopwatch = 1 / 20\<rparr>,
               fwd_timer = \<lparr>state = UP, stopwatch = 1 / 20\<rparr>, cursor = 1, nslides = 3\<rparr>)"
    by (simp add: Cursor_tick_def Cursor_init_def repeater_eval)
  from cursor_in_bounds [OF n run] show ?thesis
    unfolding run by simp
qed

text \<open>
  Claim C6.  A \<open>tick\<close> with both \<open>reverse\<close> and \<open>forward\<close> held returns false and leaves
  the whole Cursor as it was: the cursor value and both Repeaters, state and stopwatch.
\<close>

theorem cursor_both_held:
  "Cursor_tick c dt True True = (False, c)"
  by (simp add: Cursor_tick_def)






section \<open>Properties of the rasterizer worker\<close>

lemma store_chunk_rendered:
  assumes "rendered cfg st" and "store_chunk st (map (\<lambda>p. Page p (image_size st)) [page st..<b]) = Inr st'"
  shows "rendered cfg st' \<and> page st' = max (page st) b \<and> image_size st' = image_size st \<and>
         window_size st' = window_size st"
  using assms
proof (induction "b - page st" arbitrary: st)
  case 0
  then show ?case by simp
next
  case (Suc n)
  let ?a = "page st" and ?sz = "image_size st"
  let ?st1 = "st\<lparr>images := (images st)[?a - 1 := Some (Page ?a ?sz)], page := ?a + 1\<rparr>"
  from Suc.hyps(2) have lt: "?a < b"
    by simp
  then have upt: "[?a..<b] = ?a # [Suc ?a..<b]"
    by (simp add: upt_rec)
  from Suc.prems(1) have len: "length (images st) = pagelimit cfg" and a1: "1 \<le> ?a"
    and tk: "take (?a - 1) (images st) = map (\<lambda>p. Some (Page p ?sz)) [1..<?a]"
    by (simp_all add: rendered_def)
  from Suc.prems(2) upt have inb: "?a - 1 < length (images st)"
    by (auto split: if_splits)
  with Suc.prems(2) upt
  have rest: "store_chunk ?st1 (map (\<lambda>p. Page p (image_size ?st1)) [page ?st1..<b]) = Inr st'"
    by simp
  have "take ?a ((images st)[?a - 1 := Some (Page ?a ?sz)])
          = take (?a - 1) (images st) @ [Some (Page ?a ?sz)]"
    using inb a1 by (cases ?a) (simp_all add: take_Suc_conv_app_nth)
  also have "\<dots> = map (\<lambda>p. Some (Page p ?sz)) [1..<Suc ?a]"
    using tk a1 by simp
  finally have r1: "rendered cfg ?st1"
    using len inb a1 by (simp add: rendered_def)
  have n: "n = b - page ?st1"
    using Suc.hyps(2) by simp
  from Suc.hyps(1) [OF n r1 rest] lt show ?case
    by simp
qed


lemma drain_Running:
  assumes "drain cfg st items = Running st1"
  shows "images st1 = images st \<and>
         (if items = [] then st1 = st
          else page st1 = 1 \<and>
               (\<exists>ws. last items = Some ws \<and> window_size st1 = ws \<and>
                     winsize2rasterargs ws (aspect cfg) = Inr (image_size st1)))"
  using assms
proof (induction cfg st items rule: drain.induct)
  case (1 cfg st)
  then show ?case by simp
next
  case (2 cfg st items)
  then show ?case by simp
next
  case (3 cfg st ws items)
  from "3.prems" obtain sz where sz: "winsize2rasterargs ws (aspect cfg) = Inr sz"
    by (auto split: sum.splits)
  let ?st = "st\<lparr>window_size := ws, image_size := sz, page := 1\<rparr>"
  from "3.prems" sz have d: "drain cfg ?st items = Running st1"
    by simp
  from "3.IH" [OF sz d] sz show ?case
    by (cases "items = []") simp_all
qed


lemma full_set_length: "length (full_set cfg sz) = pagelimit cfg"
  by (simp add: full_set_def)

lemma full_set_no_None: "None \<notin> set (full_set cfg sz)"
  by (auto simp: full_set_def)

lemma rendered_full:
  assumes "rendered cfg st" and "page st = pagelimit cfg + 1"
  shows "images st = full_set cfg (image_size st)"
proof -
  from assms have "length (images st) = pagelimit cfg"
    and "take (pagelimit cfg) (images st)
           = map (\<lambda>p. Some (Page p (image_size st))) [1..<Suc (pagelimit cfg)]"
    by (simp_all add: rendered_def del: upt_Suc)
  then show ?thesis
    by (simp add: full_set_def del: upt_Suc)
qed

lemma drain_keeps_inv:
  assumes "rendered cfg st \<or> idle cfg st" and "drain cfg st items = Running st1"
  shows "(rendered cfg st1 \<or> idle cfg st1) \<and> (items \<noteq> [] \<longrightarrow> rendered cfg st1 \<and> page st1 = 1)"
proof (cases "items = []")
  case True
  with drain_Running [OF assms(2)] assms(1) show ?thesis
    by simp
next
  case False
  from assms(1) have len: "length (images st) = pagelimit cfg"
    by (auto simp: rendered_def idle_def)
  from drain_Running [OF assms(2)] False have "images st1 = images st" and "page st1 = 1"
    by simp_all
  with len have "rendered cfg st1"
    by (simp add: rendered_def)
  with \<open>page st1 = 1\<close> show ?thesis
    by simp
qed

lemma iteration_Running_cases:
  assumes "iteration cfg st items = Running (st', pub)"
  obtains
    (publish) st1 where "drain cfg st items = Running st1" "page st1 = pagelimit cfg + 1"
      "images st1 \<noteq> []" "last (images st1) \<noteq> None"
      "st' = st1\<lparr>images := replicate (pagelimit cfg) None\<rparr>" "pub = Some (images st1)"
  | (wait) st1 where "drain cfg st items = Running st1" "page st1 = pagelimit cfg + 1"
      "images st1 \<noteq> []" "last (images st1) = None" "st' = st1" "pub = None"
  | (render) st1 where "drain cfg st items = Running st1" "page st1 \<noteq> pagelimit cfg + 1"
      "store_chunk st1 (convert_from_path (npages cfg) (image_size st1)
                          (page st1) (page st1 + CHUNK - 1)) = Inr st'"
      "pub = None"
proof -
  from assms obtain st1 where d: "drain cfg st items = Running st1"
    unfolding iteration_def by (cases "drain cfg st items") simp_all
  show thesis
  proof (cases "page st1 = pagelimit cfg + 1")
    case True
    with assms d have ne: "images st1 \<noteq> []"
      unfolding iteration_def by (cases "images st1 = []") simp_all
    show thesis
    proof (cases "last (images st1) = None")
      case True
      with assms d \<open>page st1 = pagelimit cfg + 1\<close> ne have "st' = st1" "pub = None"
        unfolding iteration_def by simp_all
      with d \<open>page st1 = pagelimit cfg + 1\<close> ne True show thesis
        by (rule wait)
    next
      case False
      with assms d \<open>page st1 = pagelimit cfg + 1\<close> ne
      have "st' = st1\<lparr>images := replicate (pagelimit cfg) None\<rparr>" "pub = Some (images st1)"
        unfolding iteration_def by auto
      with d \<open>page st1 = pagelimit cfg + 1\<close> ne False show thesis
        by (rule publish)
    qed
  next
    case False
    let ?chunk = "convert_from_path (npages cfg) (image_size st1) (page st1) (page st1 + CHUNK - 1)"
    from assms d False have "store_chunk st1 ?chunk = Inr st'" "pub = None"
      unfolding iteration_def by (cases "store_chunk st1 ?chunk"; simp)+
    with d False show thesis
      by (rule render)
  qed
qed

lemma convert_chunk:
  assumes "1 \<le> first_page"
  shows "convert_from_path n sz first_page last_page =
           map (\<lambda>p. Page p sz) [first_page..<Suc (min last_page n)]"
  using assms by (simp add: convert_from_path_def max_def)

lemma iteration_keeps_inv:
  assumes inv: "rendered cfg st \<or> idle cfg st"
    and it: "iteration cfg st items = Running (st', pub)"
  shows "(rendered cfg st' \<or> idle cfg st') \<and>
         (case pub of None \<Rightarrow> True | Some imgs \<Rightarrow> imgs = full_set cfg (image_size st'))"
  using it
proof (cases rule: iteration_Running_cases)
  case (publish st1)
  from drain_keeps_inv [OF inv publish(1)] have inv1: "rendered cfg st1 \<or> idle cfg st1"
    by simp
  have "\<not> idle cfg st1"
  proof
    assume "idle cfg st1"
    then have "images st1 = replicate (pagelimit cfg) None"
      by (simp add: idle_def)
    with publish(3,4) show False
      by (simp add: last_replicate)
  qed
  with inv1 have "rendered cfg st1"
    by simp
  then have "images st1 = full_set cfg (image_size st1)"
    using publish(2) by (rule rendered_full)
  moreover have "idle cfg st'"
    using publish(2,5) by (simp add: idle_def)
  ultimately show ?thesis
    using publish(5,6) by simp
next
  case (wait st1)
  with drain_keeps_inv [OF inv wait(1)] show ?thesis
    by simp
next
  case (render st1)
  from drain_keeps_inv [OF inv render(1)] render(2) have r1: "rendered cfg st1"
    by (auto simp: idle_def)
  then have "1 \<le> page st1"
    by (simp add: rendered_def)
  with render(3) have "store_chunk st1 (map (\<lambda>p. Page p (image_size st1))
      [page st1..<Suc (min (page st1 + CHUNK - 1) (npages cfg))]) = Inr st'"
    by (simp add: convert_chunk)
  from store_chunk_rendered [OF r1 this] render(4) show ?thesis
    by simp
qed

lemma worker_loop_keeps_inv:
  assumes "rendered cfg st \<or> idle cfg st" and "worker_loop cfg st sched = (pubs, Running st')"
  shows "rendered cfg st' \<or> idle cfg st'"
  using assms
proof (induction sched arbitrary: st pubs)
  case Nil
  then show ?case by simp
next
  case (Cons items sched)
  from Cons.prems(2) obtain st1 pub where it: "iteration cfg st items = Running (st1, pub)"
    by (auto split: outcome.splits prod.splits)
  with Cons.prems(2) obtain pubs1 where rest: "worker_loop cfg st1 sched = (pubs1, Running st')"
    by (auto split: prod.splits)
  from iteration_keeps_inv [OF Cons.prems(1) it] have "rendered cfg st1 \<or> idle cfg st1"
    by simp
  then show ?case
    using rest by (rule Cons.IH)
qed

lemma worker_start_rendered:
  assumes "worker_start cfg first = Inr st"
  shows "rendered cfg st \<and> page st = 1"
  using assms
  by (auto simp: worker_start_def rendered_def split: option.splits sum.splits)


text \<open>
  Claim C3.  Take any run of the worker that is still running, and any next pass in which
  the callback is called.  The list passed has exactly \<open>pagelimit\<close> entries, none of them
  \<open>None\<close>, and entry \<open>p - 1\<close> is page \<open>p\<close> decoded at the size the worker holds at that
  moment: one size for the whole list.
\<close>

theorem published_set_complete:
  assumes "rasterize_worker cfg first sched = (pubs, Running st)"
    and "iteration cfg st items = Running (st', Some imgs)"
  shows "length imgs = pagelimit cfg \<and> None \<notin> set imgs \<and>
         imgs = map (\<lambda>p. Some (Page p (image_size st'))) [1..<Suc (pagelimit cfg)]"
proof -
  from assms(1) obtain st0 where start: "worker_start cfg first = Inr st0"
    and loop: "worker_loop cfg st0 sched = (pubs, Running st)"
    by (auto simp: rasterize_worker_def split: sum.splits)
  from worker_start_rendered [OF start] have "rendered cfg st0 \<or> idle cfg st0"
    by simp
  then have "rendered cfg st \<or> idle cfg st"
    using loop by (rule worker_loop_keeps_inv)
  from iteration_keeps_inv [OF this assms(2)] have "imgs = full_set cfg (image_size st')"
    by simp
  then show ?thesis
    using full_set_length [of cfg "image_size st'"] full_set_no_None [of cfg "image_size st'"]
    by (simp add: full_set_def)
qed

theorem published_set_complete_witness:
  "length [Some (Page 1 (None, Some 600)), Some (Page 2 (None, Some 600))] =
     pagelimit \<lparr>pagelimit = 2, npages = 2, aspect = 4 / 3\<rparr> \<and>
   None \<notin> set [Some (Page 1 (None, Some 600)), Some (Page 2 (None, Some 600))] \<and>
   [Some (Page 1 (None, Some 600)), Some (Page 2 (None, Some 600))] =
     map (\<lambda>p. Some (Page p (image_size
            (\<lparr>page = 3,
              images = [Some (Page 1 (None, Some 600)), Some (Page 2 (None, Some 600))],
              window_size = (800, 600), image_size = (None, Some 600)\<rparr>
             \<lparr>images := replicate 2 None\<rparr>))))
       [1..<Suc (pagelimit \<lparr>pagelimit = 2, npages = 2, aspect = 4 / 3\<rparr>)]"
proof -
  let ?cfg = "\<lparr>pagelimit = 2, npages = 2, aspect = 4 / 3\<rparr>"
  let ?st = "\<lparr>page = 3,
              images = [Some (Page 1 (None, Some 600)), Some (Page 2 (None, Some 600))],
              window_size = (800, 600), image_size = (None, Some 600)\<rparr>"
  have run: "rasterize_worker ?cfg (Some (800, 600)) [[]] = ([], Running ?st)"
    by (simp add: rasterize_worker_def worker_start_def winsize2rasterargs_def iteration_def
        convert_from_path_def CHUNK_def eval_nat_numeral upt_rec)
  have pass: "iteration ?cfg ?st [] =
                Running (?st\<lparr>images := replicate 2 None\<rparr>,
                         Some [Some (Page 1 (None, Some 600)), Some (Page 2 (None, Some 600))])"
    by (simp add: iteration_def)
  show ?thesis
    by (rule published_set_complete [OF run pass])
qed

lemma iteration_idle:
  assumes "idle cfg st" and "1 \<le> pagelimit cfg"
  shows "iteration cfg st [] = Running (st, None)"
  using assms by (simp add: iteration_def idle_def last_replicate)

lemma idle_passes:
  assumes "idle cfg st" and "1 \<le> pagelimit cfg"
  shows "worker_loop cfg st (replicate n []) = ([], Running st)"
  by (induction n) (simp_all add: iteration_idle [OF assms])

lemma iteration_publish:
  assumes "page st = pagelimit cfg + 1" and "images st \<noteq> []" and "last (images st) \<noteq> None"
  shows "iteration cfg st [] =
           Running (st\<lparr>images := replicate (pagelimit cfg) None\<rparr>, Some (images st))"
  using assms by (simp add: iteration_def)


text \<open>
  Claim C7.  The worker stands after the last chunk: \<open>page = pagelimit + 1\<close> and the last
  entry of the list is set.  Over any number of further passes that find the queue empty,
  at least one, the callback is called exactly once, in the first of them and with that
  list; the worker then holds a list of \<open>None\<close> and the later passes change nothing.
\<close>

theorem callback_once_then_idle:
  assumes "length (images st) = pagelimit cfg" and "page st = pagelimit cfg + 1"
    and "images st \<noteq> []" and "last (images st) \<noteq> None"
  shows "worker_loop cfg st (replicate (Suc n) []) =
           ([images st], Running (st\<lparr>images := replicate (pagelimit cfg) None\<rparr>))"
proof -
  let ?st' = "st\<lparr>images := replicate (pagelimit cfg) None\<rparr>"
  from assms(1,3) have pl: "1 \<le> pagelimit cfg"
    by (cases "images st") auto
  have "idle cfg ?st'"
    using assms(2) by (simp add: idle_def)
  from idle_passes [OF this pl, of n] iteration_publish [OF assms(2-4)] show ?thesis
    by simp
qed


theorem callback_once_then_idle_witness:
  "worker_loop \<lparr>pagelimit = 2, npages = 2, aspect = 4 / 3\<rparr>
     \<lparr>page = 3, images = [Some (Page 1 (None, Some 600)), Some (Page 2 (None, Some 600))],
      window_size = (800, 600), image_size = (None, Some 600)\<rparr>
     (replicate (Suc 3) []) =
   ([[Some (Page 1 (None, Some 600)), Some (Page 2 (None, Some 600))]],
    Running \<lparr>page = 3, images = [None, None],
             window_size = (800, 600), image_size = (None, Some 600)\<rparr>)"
proof -
  let ?cfg = "\<lparr>pagelimit = 2, npages = 2, aspect = 4 / 3\<rparr>"
  let ?st = "\<lparr>page = 3,
              images = [Some (Page 1 (None, Some 600)), Some (Page 2 (None, Some 600))],
              window_size = (800, 600), image_size = (None, Some 600)\<rparr>"
  have "length (images ?st) = pagelimit ?cfg" and "page ?st = pagelimit ?cfg + 1"
    and "images ?st \<noteq> []" and "last (images ?st) \<noteq> None"
    by simp_all
  from callback_once_then_idle [OF this, of 3] show ?thesis
    by (simp add: eval_nat_numeral)
qed

lemma drain_sentinel:
  assumes "\<forall>ws\<in>set wss. snd ws \<noteq> 0"
  shows "drain cfg st (map Some wss @ None # items) = Returned"
  using assms
proof (induction wss arbitrary: st)
  case Nil
  then show ?case by simp
next
  case (Cons ws wss)
  then have "snd ws \<noteq> 0"
    by simp
  then have "\<exists>sz. winsize2rasterargs ws (aspect cfg) = Inr sz"
    by (cases ws) (simp add: winsize2rasterargs_def Let_def)
  then obtain sz where "winsize2rasterargs ws (aspect cfg) = Inr sz"
    by blast
  with Cons show ?case
    by simp
qed

lemma worker_returns_on_sentinel:
  assumes "\<forall>ws\<in>set wss. snd ws \<noteq> 0"
  shows "worker_loop cfg st ((map Some wss @ None # items) # sched) = ([], Returned)"
  by (simp add: iteration_def drain_sentinel [OF assms])


text \<open>
  Claim C8, at the input where the code departs from it.  When the stop sentinel is the
  first item the worker ever receives, the blocking \<open>get\<close> before the loop hands \<open>None\<close>
  to \<open>_winsize2rasterargs\<close>, and the worker ends with a \<open>TypeError\<close> instead of
  returning.  Inside the loop the sentinel makes the worker return in the pass that reads
  it, as \<open>worker_returns_on_sentinel\<close> shows.
\<close>

theorem sentinel_first_raises:
  "rasterize_worker cfg None sched = ([], Raised TypeError)"
  by (simp add: rasterize_worker_def worker_start_def)


text \<open>
  Claim C10, at an input where the code departs from it.  With \<open>pagelimit = 2\<close> and a
  document of three pages the first chunk asks for pages 1 to 32 and gets three images; the
  third is written at index 2 of a list of length 2.
\<close>

theorem chunk_write_out_of_bounds:
  "rasterize_worker \<lparr>pagelimit = 2, npages = 3, aspect = 4 / 3\<rparr> (Some (800, 600)) [[]]
     = ([], Raised IndexError)"
  by (simp add: rasterize_worker_def worker_start_def winsize2rasterargs_def iteration_def
      convert_from_path_def CHUNK_def eval_nat_numeral upt_rec)















section \<open>Properties of ThreadedRasterizer\<close>

text \<open>
  Claim C4.  Before any call of \<open>images_done\<close>, \<open>get\<close> returns \<open>None\<close> for every index.
  After \<open>images_done\<close> has stored a fully rendered, non-empty list, whatever was stored
  before, \<open>get index\<close> is the image at \<open>index\<close> when \<open>0 \<le> index < nslides\<close> and the black
  image made from the first image otherwise; so for \<open>-1\<close> and for \<open>nslides\<close>.
\<close>

theorem get_cases:
  assumes "imgs = map Some ims" and "ims \<noteq> []"
  shows "get ThreadedRasterizer_init index = None \<and>
         get (fst (images_done tr imgs)) index =
           (if 0 \<le> index \<and> index < int (length ims) then Some (ims ! nat index)
            else Some (Black (hd ims))) \<and>
         get (fst (images_done tr imgs)) (- 1) = Some (Black (hd ims)) \<and>
         get (fst (images_done tr imgs)) (int (length ims)) = Some (Black (hd ims))"
proof -
  from assms(2) obtain im rest where ims: "ims = im # rest"
    by (cases ims) auto
  have after: "fst (images_done tr imgs) =
                 \<lparr>tr_images = Some imgs, tr_black = Some (Black (hd ims))\<rparr>"
    by (simp add: images_done_def assms(1) ims)
  have "get ThreadedRasterizer_init index = None"
    by (simp add: get_def ThreadedRasterizer_init_def)
  moreover have "get \<lparr>tr_images = Some imgs, tr_black = Some (Black (hd ims))\<rparr> i =
           (if 0 \<le> i \<and> i < int (length ims) then Some (ims ! nat i)
            else Some (Black (hd ims)))" for i
  proof (cases "0 \<le> i \<and> i < int (length ims)")
    case True
    then have "nat i < length ims"
      by linarith
    then have "imgs ! nat i = Some (ims ! nat i)"
      by (simp add: assms(1))
    with True show ?thesis
      by (simp add: get_def assms(1))
  next
    case False
    then show ?thesis
      by (auto simp: get_def assms(1))
  qed
  ultimately show ?thesis
    unfolding after by simp
qed

theorem get_cases_witness:
  "get ThreadedRasterizer_init 0 = None \<and>
   get (fst (images_done ThreadedRasterizer_init
               [Some (Page 1 (None, Some 600)), Some (Page 2 (None, Some 600))])) 1 =
     Some (Page 2 (None, Some 600)) \<and>
   get (fst (images_done ThreadedRasterizer_init
               [Some (Page 1 (None, Some 600)), Some (Page 2 (None, Some 600))])) (- 1) =
     Some (Black (Page 1 (None, Some 600))) \<and>
   get (fst (images_done ThreadedRasterizer_init
               [Some (Page 1 (None, Some 600)), Some (Page 2 (None, Some 600))])) 2 =
     Some (Black (Page 1 (None, Some 600)))"
proof -
  have a: "[Some (Page 1 (None, Some 600)), Some (Page 2 (None, Some 600))] =
           map Some [Page 1 (None, Some 600), Page 2 (None, Some (600 :: int))]"
    by simp
  have b: "[Page 1 (None, Some 600), Page 2 (None, Some (600 :: int))] \<noteq> []"
    by simp
  from get_cases [OF a b, of 0 ThreadedRasterizer_init]
       get_cases [OF a b, of 1 ThreadedRasterizer_init]
  show ?thesis
    by simp
qed

end
